theory Spec2Isabelle
  imports Complex_Main
begin

section \<open>Python text primitives\<close>

text \<open>
  A Python \<open>str\<close> is modelled as a \<^typ>\<open>string\<close>: one \<^typ>\<open>char\<close> stands for one code
  point, so \<^const>\<open>length\<close> is Python's \<open>len\<close>. The code points covered are 0 to 255;
  on them the functions below are the ones of Python's \<open>str\<close>.
\<close>

definition isspace :: "char \<Rightarrow> bool" where
  \<comment> \<open>\<open>str.isspace\<close> on one character: TAB to CR, FS to US, space, NEL, NBSP.\<close>
  "isspace c = (let n = (of_char c :: nat) in
     (9 \<le> n \<and> n \<le> 13) \<or> (28 \<le> n \<and> n \<le> 32) \<or> n = 133 \<or> n = 160)"

definition strip :: "string \<Rightarrow> string" where
  \<comment> \<open>\<open>s.strip()\<close>\<close>
  "strip s = rev (dropWhile isspace (rev (dropWhile isspace s)))"

definition strip_chars :: "string \<Rightarrow> string \<Rightarrow> string" where
  \<comment> \<open>\<open>s.strip(chars)\<close>\<close>
  "strip_chars chars s =
     rev (dropWhile (List.member chars) (rev (dropWhile (List.member chars) s)))"

definition lower_char :: "char \<Rightarrow> char" where
  \<comment> \<open>A to Z, and the capital letters of Latin-1 (U+00C0 to U+00DE but the sign U+00D7).\<close>
  "lower_char c = (let n = (of_char c :: nat) in
     if (65 \<le> n \<and> n \<le> 90) \<or> (192 \<le> n \<and> n \<le> 214) \<or> (216 \<le> n \<and> n \<le> 222)
     then char_of (n + 32) else c)"

definition lower :: "string \<Rightarrow> string" where
  \<comment> \<open>\<open>s.lower()\<close>\<close>
  "lower s = map lower_char s"

definition startswith :: "string \<Rightarrow> string \<Rightarrow> bool" where
  \<comment> \<open>\<open>s.startswith(p)\<close>\<close>
  "startswith s p = (take (length p) s = p)"

definition endswith :: "string \<Rightarrow> string \<Rightarrow> bool" where
  \<comment> \<open>\<open>s.endswith(p)\<close>\<close>
  "endswith s p = (length p \<le> length s \<and> drop (length s - length p) s = p)"

definition slice_from :: "int \<Rightarrow> 'a list \<Rightarrow> 'a list" where
  \<comment> \<open>\<open>s[i:]\<close>: a negative index counts from the end and is clamped at the start.\<close>
  "slice_from i s =
     (if i < 0 then drop (nat (max 0 (int (length s) + i))) s else drop (nat i) s)"

definition slice_to :: "int \<Rightarrow> 'a list \<Rightarrow> 'a list" where
  \<comment> \<open>\<open>s[:i]\<close>\<close>
  "slice_to i s =
     (if i < 0 then take (nat (max 0 (int (length s) + i))) s else take (nat i) s)"

section \<open>Python values and exceptions\<close>

text \<open>
  The exceptions that matter to the handlers: the two that \<open>json.loads\<close> raises here, and
  \<open>Raised\<close> with its message for what a collaborator outside the sources raises.
\<close>

datatype exn = JSONDecodeError | RecursionError | Raised string

datatype pyobj =
    PNone
  | PBool bool
  | PNum string
  | PStr string
  | PList "pyobj list"
  | PDict "(string \<times> pyobj) list"

section \<open>json.loads\<close>

text \<open>
  The decoder of the standard library, as the sources call it: with its defaults, on a
  \<open>str\<close>. A number is kept as the text matched (the parsers look at the type of a value,
  never at a number); \<open>NaN\<close>, \<open>Infinity\<close> and \<open>-Infinity\<close> are accepted as the library
  accepts them. An object is the list of its pairs in the order read. Every error of syntax
  is a \<open>JSONDecodeError\<close>. Two things are outside the model: an escape \<open>\uXXXX\<close> above
  \<open>00FF\<close>, which denotes a character that the model's text does not have and is
  rejected like a malformed escape; and the limit on the digits of an integer literal of
  recent interpreters.
\<close>

definition json_ws :: "char \<Rightarrow> bool" where
  "json_ws c = (c = CHR '' '' \<or> c = CHR 0x09 \<or> c = CHR 0x0A \<or> c = CHR 0x0D)"

definition skip_ws :: "string \<Rightarrow> string" where
  "skip_ws s = dropWhile json_ws s"

definition is_digit :: "char \<Rightarrow> bool" where
  "is_digit c = (let n = (of_char c :: nat) in 48 \<le> n \<and> n \<le> 57)"

definition hex_value :: "char \<Rightarrow> nat option" where
  "hex_value c = (let n = (of_char c :: nat) in
     if 48 \<le> n \<and> n \<le> 57 then Some (n - 48)
     else if 97 \<le> n \<and> n \<le> 102 then Some (n - 87)
     else if 65 \<le> n \<and> n \<le> 70 then Some (n - 55)
     else None)"

definition decode_uXXXX :: "char \<Rightarrow> char \<Rightarrow> char \<Rightarrow> char \<Rightarrow> nat option" where
  "decode_uXXXX a b c d =
     (case (hex_value a, hex_value b, hex_value c, hex_value d) of
        (Some w, Some x, Some y, Some z) \<Rightarrow> Some (((w * 16 + x) * 16 + y) * 16 + z)
      | _ \<Rightarrow> None)"

definition backslash :: "char \<Rightarrow> char option" where
  \<open>backslash esc =
     (if esc = CHR ''"'' then Some (CHR ''"'')
      else if esc = CHR 0x5C then Some (CHR 0x5C)
      else if esc = CHR ''/'' then Some (CHR ''/'')
      else if esc = CHR ''b'' then Some (CHR 0x08)
      else if esc = CHR ''f'' then Some (CHR 0x0C)
      else if esc = CHR ''n'' then Some (CHR 0x0A)
      else if esc = CHR ''r'' then Some (CHR 0x0D)
      else if esc = CHR ''t'' then Some (CHR 0x09)
      else None)\<close>

fun scanstring :: "string \<Rightarrow> string \<Rightarrow> exn + (string \<times> string)" where
  "scanstring chunks [] = Inl JSONDecodeError"
| "scanstring chunks (c # s) =
     (if c = CHR 0x22 then Inr (chunks, s)
      else if c = CHR 0x5C then
        (case s of
           [] \<Rightarrow> Inl JSONDecodeError
         | esc # s' \<Rightarrow>
             if esc = CHR ''u'' then
               (case s' of
                  h1 # h2 # h3 # h4 # s'' \<Rightarrow>
                    (case decode_uXXXX h1 h2 h3 h4 of
                       None \<Rightarrow> Inl JSONDecodeError
                     | Some uni \<Rightarrow>
                         if uni < 256 then scanstring (chunks @ [char_of uni]) s''
                         else Inl JSONDecodeError)
                | _ \<Rightarrow> Inl JSONDecodeError)
             else
               (case backslash esc of
                  None \<Rightarrow> Inl JSONDecodeError
                | Some ch \<Rightarrow> scanstring (chunks @ [ch]) s'))
      else if (of_char c :: nat) < 32 then Inl JSONDecodeError
      else scanstring (chunks @ [c]) s)"

lemma scanstring_shorter: "scanstring chunks s = Inr (r, rest) \<Longrightarrow> length rest < length s"
proof (induction s arbitrary: chunks rule: length_induct)
  case (1 s)
  have IH: "length rest < length ys"
    if "scanstring ch ys = Inr (r, rest)" and "length ys < length s" for ys ch
    using "1.IH" that by blast
  show ?case
    using "1.prems"
    by (cases s) (auto split: if_splits list.splits option.splits dest!: IH)
qed

definition match_frac :: "string \<Rightarrow> string \<times> string" where
  \<comment> \<open>\<open>(\.\d+)?\<close>: the text matched and what follows it\<close>
  "match_frac s =
     (case s of
        c # d # t \<Rightarrow>
          if c = CHR ''.'' \<and> is_digit d
          then (c # d # takeWhile is_digit t, dropWhile is_digit t) else ([], s)
      | _ \<Rightarrow> ([], s))"

definition match_exp :: "string \<Rightarrow> string \<times> string" where
  \<comment> \<open>\<open>([eE][-+]?\d+)?\<close>\<close>
  "match_exp s =
     (case s of
        [] \<Rightarrow> ([], s)
      | e # t \<Rightarrow>
          if e = CHR ''e'' \<or> e = CHR ''E'' then
            (let (sg, t') = (case t of
                               [] \<Rightarrow> ([], t)
                             | c # u \<Rightarrow> if c = CHR ''-'' \<or> c = CHR ''+'' then ([c], u) else ([], t))
             in case t' of
                  [] \<Rightarrow> ([], s)
                | d # u \<Rightarrow>
                    if is_digit d
                    then (e # sg @ d # takeWhile is_digit u, dropWhile is_digit u)
                    else ([], s))
          else ([], s))"

definition match_number :: "string \<Rightarrow> (string \<times> string) option" where
  \<comment> \<open>\<open>NUMBER_RE.match\<close>, \<open>(-?(?:0|[1-9]\d*))(\.\d+)?([eE][-+]?\d+)?\<close>: the text matched and what
      follows it\<close>
  "match_number s =
     (let (sg, s1) = (case s of
                        [] \<Rightarrow> ([], s)
                      | c # t \<Rightarrow> if c = CHR ''-'' then ([c], t) else ([], s))
      in case s1 of
           [] \<Rightarrow> None
         | d # t \<Rightarrow>
             if is_digit d then
               (let (integer, s2) = (if d = CHR ''0'' then ([d], t)
                                     else (d # takeWhile is_digit t, dropWhile is_digit t));
                    (frac, s3) = match_frac s2;
                    (exp, s4) = match_exp s3
                in Some (sg @ integer @ frac @ exp, s4))
             else None)"

lemma match_frac_split: "match_frac s = (m, r) \<Longrightarrow> s = m @ r"
  by (auto simp: match_frac_def split: list.splits if_splits)

lemma match_exp_split: "match_exp s = (m, r) \<Longrightarrow> s = m @ r"
  by (auto simp: match_exp_def Let_def split: list.splits if_splits prod.splits)

lemma match_number_split: "match_number s = Some (m, r) \<Longrightarrow> s = m @ r \<and> m \<noteq> []"
  apply (auto simp: match_number_def Let_def split: list.splits if_splits prod.splits
      dest!: match_frac_split match_exp_split)
   apply (metis takeWhile_dropWhile_id)+
  done

lemma match_number_shorter: "match_number s = Some (m, r) \<Longrightarrow> length r < length s"
  by (drule match_number_split) (cases m; simp)

lemma length_skip_ws: "length (skip_ws s) \<le> length s"
  by (simp add: skip_ws_def length_dropWhile_le)

lemma skip_ws_Cons_shorter: "skip_ws s = c # r \<Longrightarrow> length r < length s"
  using length_skip_ws [of s] by simp

text \<open>
  The scanner. \<open>depth\<close> is the number of containers that may still be entered before the
  interpreter's recursion limit is reached. The loops over the items of an array and the
  pairs of an object go on from where the scan of the last value ended; the test that this
  is further in the text than where it began never fails (\<open>scan_once_shorter\<close> below).
\<close>

function scan_once :: "nat \<Rightarrow> string \<Rightarrow> exn + (pyobj \<times> string)"
  and parse_array :: "nat \<Rightarrow> pyobj list \<Rightarrow> string \<Rightarrow> exn + (pyobj \<times> string)"
  and parse_object :: "nat \<Rightarrow> (string \<times> pyobj) list \<Rightarrow> string \<Rightarrow> exn + (pyobj \<times> string)"
where
  "scan_once depth s =
     (case s of
        [] \<Rightarrow> Inl JSONDecodeError
      | nextchar # t \<Rightarrow>
          if nextchar = CHR 0x22 then
            (case scanstring [] t of Inl e \<Rightarrow> Inl e | Inr (str, rest) \<Rightarrow> Inr (PStr str, rest))
          else if nextchar = CHR ''{'' then
            (if depth = 0 then Inl RecursionError
             else case skip_ws t of
                    [] \<Rightarrow> Inl JSONDecodeError
                  | c # rest \<Rightarrow>
                      if c = CHR ''}'' then Inr (PDict [], rest)
                      else if c = CHR 0x22 then parse_object (depth - 1) [] rest
                      else Inl JSONDecodeError)
          else if nextchar = CHR ''['' then
            (if depth = 0 then Inl RecursionError
             else case skip_ws t of
                    [] \<Rightarrow> Inl JSONDecodeError
                  | c # rest \<Rightarrow>
                      if c = CHR '']'' then Inr (PList [], rest)
                      else parse_array (depth - 1) [] (c # rest))
          else if startswith s ''null'' then Inr (PNone, drop 4 s)
          else if startswith s ''true'' then Inr (PBool True, drop 4 s)
          else if startswith s ''false'' then Inr (PBool False, drop 5 s)
          else case match_number s of
                 Some (m, rest) \<Rightarrow> Inr (PNum m, rest)
               | None \<Rightarrow>
                   if startswith s ''NaN'' then Inr (PNum ''NaN'', drop 3 s)
                   else if startswith s ''Infinity'' then Inr (PNum ''Infinity'', drop 8 s)
                   else if startswith s ''-Infinity'' then Inr (PNum ''-Infinity'', drop 9 s)
                   else Inl JSONDecodeError)"
| "parse_array depth values s =
     (case scan_once depth s of
        Inl e \<Rightarrow> Inl e
      | Inr (v, rest) \<Rightarrow>
          if length rest < length s then
            (case skip_ws rest of
               [] \<Rightarrow> Inl JSONDecodeError
             | c # rest' \<Rightarrow>
                 if c = CHR '']'' then Inr (PList (values @ [v]), rest')
                 else if c = CHR '','' then parse_array depth (values @ [v]) (skip_ws rest')
                 else Inl JSONDecodeError)
          else Inl JSONDecodeError)"
| "parse_object depth pairs s =
     (case scanstring [] s of
        Inl e \<Rightarrow> Inl e
      | Inr (key, rest) \<Rightarrow>
          (case skip_ws rest of
             [] \<Rightarrow> Inl JSONDecodeError
           | c # rest1 \<Rightarrow>
               if c = CHR '':'' then
                 (case scan_once depth (skip_ws rest1) of
                    Inl e \<Rightarrow> Inl e
                  | Inr (v, rest2) \<Rightarrow>
                      if length rest2 < length (skip_ws rest1) then
                        (case skip_ws rest2 of
                           [] \<Rightarrow> Inl JSONDecodeError
                         | c' # rest3 \<Rightarrow>
                             if c' = CHR ''}'' then Inr (PDict (pairs @ [(key, v)]), rest3)
                             else if c' = CHR '','' then
                               (case skip_ws rest3 of
                                  [] \<Rightarrow> Inl JSONDecodeError
                                | c'' # rest4 \<Rightarrow>
                                    if c'' = CHR 0x22
                                    then parse_object depth (pairs @ [(key, v)]) rest4
                                    else Inl JSONDecodeError)
                             else Inl JSONDecodeError)
                      else Inl JSONDecodeError)
               else Inl JSONDecodeError))"
  by pat_completeness auto

termination
  apply (relation "measure (\<lambda>x. case x of
           Inl (depth, s) \<Rightarrow> 2 * length s
         | Inr (Inl (depth, values, s)) \<Rightarrow> 2 * length s + 1
         | Inr (Inr (depth, pairs, s)) \<Rightarrow> 2 * length s + 1)")
  subgoal by simp
  subgoal by (auto dest!: skip_ws_Cons_shorter)
  subgoal for depth s nextchar t c rest using length_skip_ws [of t] by auto
  subgoal by simp
  subgoal for depth vals s x v rest c rest'
    using length_skip_ws [of rest'] by (auto dest!: skip_ws_Cons_shorter)
  subgoal for depth pairs s x key rest c rest1
    using length_skip_ws [of rest1] by (auto dest!: skip_ws_Cons_shorter scanstring_shorter)
  subgoal for depth pairs s x key rest c rest1 y v rest2 c' rest3 c'' rest4
    using length_skip_ws [of rest1] by (auto dest!: skip_ws_Cons_shorter scanstring_shorter)
  done

declare scan_once.simps [simp del] parse_array.simps [simp del] parse_object.simps [simp del]

definition json_loads :: "nat \<Rightarrow> string \<Rightarrow> exn + pyobj" where
  "json_loads depth s =
     (case scan_once depth (skip_ws s) of
        Inl e \<Rightarrow> Inl e
      | Inr (obj, rest) \<Rightarrow> if skip_ws rest = [] then Inr obj else Inl JSONDecodeError)"

section \<open>The prompt budget (FollowUpAgent/followUpAgent.py)\<close>

record AgentSystemRequest =
  history :: string
  query :: string

definition MAX_PROMPT_CHARS :: int where
  "MAX_PROMPT_CHARS = 10000"

definition truncate_history_to_fit_prompt :: "string \<Rightarrow> string \<Rightarrow> string" where
  "truncate_history_to_fit_prompt static_prompt hist =
     (let available = MAX_PROMPT_CHARS - int (length static_prompt) in
      if available \<le> 0 then ''''
      else if int (length hist) > available then slice_from (- available) hist
      else hist)"

text \<open>
  The three prompt constants \<open>ARTH_SYSTEM_PROMPT\<close>, \<open>USER_PORTFOLIO_SCHEMA\<close> and
  \<open>MUTUAL_FUND_CATEGORY_INFO_SCHEMA\<close> are imported from \<open>prompt_repository\<close>, outside the
  sources at hand: they are parameters of the model.
\<close>

definition static_prompt_text :: "string \<Rightarrow> string \<Rightarrow> string \<Rightarrow> string" where
  "static_prompt_text arth portfolio_schema category_schema =
     ''\<newline>'' @ arth @ ''\<newline>\<newline># Data Schemas for Reference\<newline>''
     @ portfolio_schema @ ''\<newline>'' @ category_schema
     @ ''\<newline>\<newline>You are a follow-up agent. Your task is to ask 3-5 targeted, high-impact follow-up questions to clarify the user's intent or gather missing information.\<newline>\<newline>## User Chat History:\<newline>''"

definition instructions_text :: "string \<Rightarrow> string" where
  \<open>instructions_text q =
     ''\<newline>\<newline>## User Query:\<newline>'' @ q
     @ ''\<newline>\<newline>## Instructions:\<newline>- Ask only for information that is necessary to proceed.\<newline>- Be concise and clear.\<newline>- If the query is already clear, respond with 'No follow-up needed.'\<newline>- Respond ONLY in the following JSON format:\<newline>{\<newline>  "questions": [\<newline>    "First follow-up question?",\<newline>    "Second follow-up question?",\<newline>    ...\<newline>  ]\<newline>}\<newline>- If no follow-up is needed, respond with the string: No follow-up needed.\<newline>''\<close>

definition build_followup_prompt ::
  "string \<Rightarrow> string \<Rightarrow> string \<Rightarrow> AgentSystemRequest \<Rightarrow> string" where
  "build_followup_prompt arth portfolio_schema category_schema agent_request =
     (let static_prompt = static_prompt_text arth portfolio_schema category_schema;
          truncated_history = truncate_history_to_fit_prompt static_prompt (history agent_request);
          prompt = static_prompt @ truncated_history @ instructions_text (query agent_request)
      in if int (length prompt) > MAX_PROMPT_CHARS then slice_to MAX_PROMPT_CHARS prompt
         else prompt)"

section \<open>FollowUpResponseParser.parse and execute_agent (FollowUpAgent/followUpAgent.py)\<close>

definition is_linebreak :: "char \<Rightarrow> bool" where
  \<comment> \<open>the line boundaries of \<open>str.splitlines\<close>: LF, VT, FF, CR, FS, GS, RS, NEL\<close>
  "is_linebreak c = (let n = (of_char c :: nat) in
     (10 \<le> n \<and> n \<le> 13) \<or> (28 \<le> n \<and> n \<le> 30) \<or> n = 133)"

fun splitlines_from :: "string \<Rightarrow> string \<Rightarrow> string list" where
  \<comment> \<open>the line being read, and the text left; CR LF is one boundary\<close>
  "splitlines_from line [] = (if line = [] then [] else [line])"
| "splitlines_from line [c] =
     (if is_linebreak c then [line] else [line @ [c]])"
| "splitlines_from line (c # d # s) =
     (if c = CHR 0x0D \<and> d = CHR 0x0A then line # splitlines_from [] s
      else if is_linebreak c then line # splitlines_from [] (d # s)
      else splitlines_from (line @ [c]) (d # s))"

definition splitlines :: "string \<Rightarrow> string list" where
  \<comment> \<open>\<open>s.splitlines()\<close>\<close>
  "splitlines s = splitlines_from [] s"

record ParsedResponse =
  questions :: "string list"
  no_follow_up_needed :: bool

fun nonblank_strings :: "pyobj list \<Rightarrow> string list" where
  \<comment> \<open>\<open>[q for q in data if isinstance(q, str) and q.strip()]\<close>\<close>
  "nonblank_strings [] = []"
| "nonblank_strings (PStr q # data) =
     (if strip q \<noteq> [] then q # nonblank_strings data else nonblank_strings data)"
| "nonblank_strings (_ # data) = nonblank_strings data"

definition dict_get :: "(string \<times> pyobj) list \<Rightarrow> string \<Rightarrow> pyobj option" where
  \<comment> \<open>the pairs are in the order read; of two pairs with one key the later stands\<close>
  "dict_get pairs key = map_of (rev pairs) key"

definition parse :: "nat \<Rightarrow> string \<Rightarrow> ParsedResponse" where
  "parse depth text =
     (let response = strip text in
      if startswith (lower response) ''no follow-up needed''
      then \<lparr>questions = [], no_follow_up_needed = True\<rparr>
      else
        case json_loads depth response of
          Inr (PDict pairs) \<Rightarrow>
            (case dict_get pairs ''questions'' of
               Some (PList items) \<Rightarrow>
                 \<lparr>questions = nonblank_strings items, no_follow_up_needed = False\<rparr>
             | _ \<Rightarrow> \<lparr>questions = [], no_follow_up_needed = True\<rparr>)
        | Inr (PList items) \<Rightarrow>
            \<lparr>questions = nonblank_strings items, no_follow_up_needed = False\<rparr>
        | Inr _ \<Rightarrow> \<lparr>questions = [], no_follow_up_needed = True\<rparr>
        | Inl e \<Rightarrow>
            (let lines = map (strip_chars ''- '') (filter (\<lambda>l. strip l \<noteq> []) (splitlines response));
                 qs = filter (\<lambda>l. endswith l ''?'') lines
             in if qs \<noteq> [] then \<lparr>questions = qs, no_follow_up_needed = False\<rparr>
                else \<lparr>questions = [], no_follow_up_needed = True\<rparr>))"

record AgentState =
  agent_request :: AgentSystemRequest
  agent_response :: "string \<rightharpoonup> pyobj"

definition set_follow_up :: "string list \<Rightarrow> bool \<Rightarrow> string \<Rightarrow> AgentState \<Rightarrow> AgentState" where
  \<comment> \<open>the three assignments to \<open>state.agent_response\<close> that every branch makes\<close>
  "set_follow_up follow_up_questions follow_up_needed message state =
     state\<lparr>agent_response := (agent_response state)
       (''follow_up_questions'' \<mapsto> PList (map PStr follow_up_questions),
        ''follow_up_needed'' \<mapsto> PBool follow_up_needed,
        ''message'' \<mapsto> PStr message)\<rparr>"

text \<open>
  \<open>chat\<close> is \<open>llm_service.chat\<close>: for a prompt it returns a text or raises. Nothing else in
  the \<open>try\<close> block raises, so the handler runs exactly when the call does.
\<close>

definition execute_agent ::
  "string \<Rightarrow> string \<Rightarrow> string \<Rightarrow> nat \<Rightarrow> (string \<Rightarrow> exn + string) \<Rightarrow> AgentState \<Rightarrow> AgentState" where
  "execute_agent arth portfolio_schema category_schema depth chat state =
     (let prompt = build_followup_prompt arth portfolio_schema category_schema (agent_request state)
      in case chat prompt of
           Inl e \<Rightarrow>
             set_follow_up [] False
               ''Sorry, I couldn't generate follow-up questions at this time.'' state
         | Inr followup_response \<Rightarrow>
             (let parsed = parse depth followup_response in
              if no_follow_up_needed parsed
              then set_follow_up [] False ''No follow-up needed.'' state
              else set_follow_up (questions parsed) True ''Follow-up questions generated.'' state))"

section \<open>parse_follow_up_response (FollowUpAgent/b Follow_up_agent_Prompt.py)\<close>

definition search_json_array :: "string \<Rightarrow> string option" where
  \<comment> \<open>\<open>re.search(r'\[[\s\S]*\]', s)\<close>: from the first \<open>[\<close> to the last \<open>]\<close> after it\<close>
  "search_json_array s =
     (let from_bracket = dropWhile (\<lambda>c. c \<noteq> CHR ''['') s;
          matched = rev (dropWhile (\<lambda>c. c \<noteq> CHR '']'') (rev from_bracket))
      in if matched = [] then None else Some matched)"

fun all_strings :: "pyobj list \<Rightarrow> string list option" where
  \<comment> \<open>the list, when \<open>all(isinstance(q, str) for q in questions)\<close>\<close>
  "all_strings [] = Some []"
| "all_strings (PStr q # items) = map_option ((#) q) (all_strings items)"
| "all_strings (_ # items) = None"

definition match_marker :: "string \<Rightarrow> string option" where
  \<comment> \<open>\<open>(?:\d+[\.\)]\s*|["\'*-]\s*)\<close> at the start of \<open>s\<close>: what follows the match\<close>
  \<open>match_marker s =
     (case s of
        [] \<Rightarrow> None
      | c # t \<Rightarrow>
          if is_digit c then
            (case dropWhile is_digit t of
               [] \<Rightarrow> None
             | p # u \<Rightarrow>
                 if p = CHR ''.'' \<or> p = CHR '')'' then Some (dropWhile isspace u) else None)
          else if c = CHR ''"'' \<or> c = CHR 0x27 \<or> c = CHR ''*'' \<or> c = CHR ''-''
          then Some (dropWhile isspace t)
          else None)\<close>

definition match_question :: "string \<Rightarrow> (string \<times> string) option" where
  \<comment> \<open>\<open>(.*?\?)\<close> at the start of \<open>s\<close>: up to the first \<open>?\<close>, on one line; and what follows\<close>
  "match_question s =
     (case dropWhile (\<lambda>c. c \<noteq> CHR ''?'' \<and> c \<noteq> CHR 0x0A) s of
        [] \<Rightarrow> None
      | c # rest \<Rightarrow>
          if c = CHR ''?''
          then Some (takeWhile (\<lambda>c. c \<noteq> CHR ''?'' \<and> c \<noteq> CHR 0x0A) s @ ''?'', rest)
          else None)"

definition match_numbered :: "string \<Rightarrow> (string \<times> string) option" where
  \<comment> \<open>the pattern after its \<open>(?:^|\n)\<close>\<close>
  "match_numbered s = (case match_marker s of None \<Rightarrow> None | Some u \<Rightarrow> match_question u)"

lemma match_question_shorter: "match_question s = Some (g, rest) \<Longrightarrow> length rest < length s"
proof -
  assume "match_question s = Some (g, rest)"
  then obtain c where "dropWhile (\<lambda>c. c \<noteq> CHR ''?'' \<and> c \<noteq> CHR 0x0A) s = c # rest"
    by (auto simp: match_question_def split: list.splits if_splits)
  then show ?thesis
    using length_dropWhile_le [of "\<lambda>c. c \<noteq> CHR ''?'' \<and> c \<noteq> CHR 0x0A" s] by simp
qed

lemma match_marker_shorter: "match_marker s = Some u \<Longrightarrow> length u < length s"
proof -
  have le: "length (dropWhile P xs) \<le> length xs" for P and xs :: string
    by (rule length_dropWhile_le)
  assume "match_marker s = Some u"
  then show ?thesis
    using le [of isspace] le [of is_digit]
    by (auto simp: match_marker_def split: list.splits if_splits
        intro: le_less_trans le_imp_less_Suc less_SucI dest: sym)
      (metis le length_Cons less_Suc_eq_le order_trans le_SucI)+
qed

lemma match_numbered_shorter: "match_numbered s = Some (g, rest) \<Longrightarrow> length rest < length s"
  by (auto simp: match_numbered_def split: option.splits
      dest!: match_marker_shorter match_question_shorter)

function findall_numbered :: "bool \<Rightarrow> string \<Rightarrow> string list" where
  \<comment> \<open>\<open>re.findall\<close> of the numbered pattern; \<open>at_start\<close>: the scan is at the start of the text,
      where \<open>^\<close> matches\<close>
  "findall_numbered at_start s =
     (case (if at_start then match_numbered s else None) of
        Some (g, rest) \<Rightarrow> g # findall_numbered False rest
      | None \<Rightarrow>
          (case s of
             [] \<Rightarrow> []
           | c # t \<Rightarrow>
               if c = CHR 0x0A then
                 (case match_numbered t of
                    Some (g, rest) \<Rightarrow> g # findall_numbered False rest
                  | None \<Rightarrow> findall_numbered False t)
               else findall_numbered False t))"
  by pat_completeness auto
termination
  by (relation "measure (\<lambda>(at_start, s). length s)")
    (auto split: if_splits dest!: match_numbered_shorter)

definition is_upper_AZ :: "char \<Rightarrow> bool" where
  \<comment> \<open>the class \<open>[A-Z]\<close>\<close>
  "is_upper_AZ c = (let n = (of_char c :: nat) in 65 \<le> n \<and> n \<le> 90)"

definition match_sentence :: "string \<Rightarrow> (string \<times> string) option" where
  \<comment> \<open>\<open>([A-Z][^.!?]*?\?)\<close> at the start of \<open>s\<close>\<close>
  "match_sentence s =
     (case s of
        [] \<Rightarrow> None
      | c # t \<Rightarrow>
          if is_upper_AZ c then
            (case dropWhile (\<lambda>c. c \<noteq> CHR ''.'' \<and> c \<noteq> CHR ''!'' \<and> c \<noteq> CHR ''?'') t of
               [] \<Rightarrow> None
             | p # rest \<Rightarrow>
                 if p = CHR ''?''
                 then Some (c # takeWhile (\<lambda>c. c \<noteq> CHR ''.'' \<and> c \<noteq> CHR ''!'' \<and> c \<noteq> CHR ''?'') t
                              @ ''?'', rest)
                 else None)
          else None)"

lemma match_sentence_shorter: "match_sentence s = Some (g, rest) \<Longrightarrow> length rest < length s"
proof -
  assume "match_sentence s = Some (g, rest)"
  then obtain c t p where "s = c # t"
    "dropWhile (\<lambda>c. c \<noteq> CHR ''.'' \<and> c \<noteq> CHR ''!'' \<and> c \<noteq> CHR ''?'') t = p # rest"
    by (auto simp: match_sentence_def split: list.splits if_splits)
  then show ?thesis
    using length_dropWhile_le [of "\<lambda>c. c \<noteq> CHR ''.'' \<and> c \<noteq> CHR ''!'' \<and> c \<noteq> CHR ''?''" t]
    by simp
qed

function findall_sentences :: "string \<Rightarrow> string list" where
  "findall_sentences s =
     (case match_sentence s of
        Some (g, rest) \<Rightarrow> g # findall_sentences rest
      | None \<Rightarrow> (case s of [] \<Rightarrow> [] | c # t \<Rightarrow> findall_sentences t))"
  by pat_completeness auto
termination
  by (relation "measure length") (auto dest!: match_sentence_shorter)

declare findall_numbered.simps [simp del] findall_sentences.simps [simp del]

fun clean_questions_loop :: "string list \<Rightarrow> string list \<Rightarrow> string list" where
  "clean_questions_loop [] clean_questions = clean_questions"
| "clean_questions_loop (q # qs) clean_questions =
     (let cleaned = strip (strip_chars [CHR 0x22, CHR 0x27] q) in
      clean_questions_loop qs
        (if cleaned \<noteq> [] \<and> \<not> List.member clean_questions cleaned
         then clean_questions @ [cleaned] else clean_questions))"

definition extract_with_patterns :: "string \<Rightarrow> string list" where
  \<comment> \<open>the fallback: the numbered pattern, the sentence pattern when it finds nothing, the
      clean-up\<close>
  "extract_with_patterns llm_response =
     (let matches = findall_numbered True llm_response;
          qs = (if matches = [] then findall_sentences llm_response else matches)
      in clean_questions_loop qs [])"

text \<open>
  Of what \<open>json.loads\<close> raises, the \<open>except\<close> clause catches \<open>json.JSONDecodeError\<close>; any
  other exception leaves the function.
\<close>

definition parse_follow_up_response :: "nat \<Rightarrow> string \<Rightarrow> exn + string list" where
  "parse_follow_up_response depth llm_response =
     (case search_json_array llm_response of
        None \<Rightarrow> Inr (extract_with_patterns llm_response)
      | Some json_match \<Rightarrow>
          (case json_loads depth json_match of
             Inl JSONDecodeError \<Rightarrow> Inr (extract_with_patterns llm_response)
           | Inl e \<Rightarrow> Inl e
           | Inr (PList items) \<Rightarrow>
               (case all_strings items of
                  Some qs \<Rightarrow> Inr qs
                | None \<Rightarrow> Inr (extract_with_patterns llm_response))
           | Inr _ \<Rightarrow> Inr (extract_with_patterns llm_response)))"

section \<open>The strict batch validator and the generation cascade (Follow Up agent/)\<close>

definition validate_follow_up_questions :: "string list \<Rightarrow> bool" where
  \<comment> \<open>\<open>qs\<close> is the parameter \<open>questions\<close>\<close>
  "validate_follow_up_questions qs =
     (if qs = [] then False
      else let criteria = [\<lambda>q. length q > 10,
                           \<lambda>q. endswith q ''?'',
                           \<lambda>q. length qs \<le> 3]
           in list_all (\<lambda>q. list_all (\<lambda>check. check q) criteria) qs)"

record FollowUpResult =
  follow_up_questions :: "string list"
  reasoning :: string
  confidence_score :: real

text \<open>
  The context is a dictionary; of its keys the generation reads \<open>previous_messages\<close>, a list
  when it is there (\<^const>\<open>None\<close>: the key is absent, and \<open>get\<close> gives the empty list).
\<close>

record Context =
  previous_messages :: "string list option"

definition generate_follow_up_questions :: "Context \<Rightarrow> FollowUpResult" where
  \<comment> \<open>follow_up_agent_prompts.py\<close>
  "generate_follow_up_questions context =
     (let messages = (case previous_messages context of None \<Rightarrow> [] | Some ms \<Rightarrow> ms) in
      if messages = []
      then \<lparr>follow_up_questions = [''Could you provide more context about your current situation?''],
            reasoning = ''Initial conversation requires more context'',
            confidence_score = 0.5\<rparr>
      else \<lparr>follow_up_questions = [],
            reasoning = ''No specific follow-up questions generated'',
            confidence_score = 0.5\<rparr>)"

fun split_newline_from :: "string \<Rightarrow> string \<Rightarrow> string list" where
  "split_newline_from part [] = [part]"
| "split_newline_from part (c # s) =
     (if c = CHR 0x0A then part # split_newline_from [] s
      else split_newline_from (part @ [c]) s)"

definition split_newline :: "string \<Rightarrow> string list" where
  \<comment> \<open>\<open>s.split('\n')\<close>\<close>
  "split_newline s = split_newline_from [] s"

text \<open>
  \<open>llm_outcome\<close> is what building the prompt and calling \<open>llm_service.generate_response\<close>
  comes to: the text returned, or the message of the exception raised.
\<close>

definition llm_generate_follow_up_questions :: "string + string \<Rightarrow> FollowUpResult" where
  "llm_generate_follow_up_questions llm_outcome =
     (case llm_outcome of
        Inr response \<Rightarrow>
          \<lparr>follow_up_questions =
             take 3 (map strip (filter (\<lambda>q. strip q \<noteq> [] \<and> endswith (strip q) ''?'')
                                  (split_newline response))),
           reasoning = ''LLM-generated follow-up questions'',
           confidence_score = 0.7\<rparr>
      | Inl e \<Rightarrow>
          \<lparr>follow_up_questions = [],
           reasoning = ''LLM generation failed: '' @ e,
           confidence_score = 0.0\<rparr>)"

text \<open>
  Both generators catch what they raise, so the handler of
  \<open>_generate_follow_up_questions\<close> itself has nothing to catch.
\<close>

definition generate_follow_up_questions_checked :: "Context \<Rightarrow> string + string \<Rightarrow> FollowUpResult" where
  \<comment> \<open>\<open>FollowUpAgent._generate_follow_up_questions\<close>\<close>
  "generate_follow_up_questions_checked context llm_outcome =
     (let follow_up_result = generate_follow_up_questions context in
      if \<not> validate_follow_up_questions (follow_up_questions follow_up_result)
      then llm_generate_follow_up_questions llm_outcome
      else follow_up_result)"

section \<open>Questions asked before, and the agent (FollowUpAgent/a Follow_up_Agent_implementation.py)\<close>

text \<open>
  An entry of the conversation history is a dictionary; of its fields the filter reads
  \<open>follow_up_questions\<close>, a list of strings when it is there.
\<close>

type_synonym history_entry = "string \<rightharpoonup> string list"

fun previous_questions_loop :: "history_entry list \<Rightarrow> string list \<Rightarrow> string list" where
  "previous_questions_loop [] previous_questions = previous_questions"
| "previous_questions_loop (entry # conversation_history) previous_questions =
     previous_questions_loop conversation_history
       (case entry ''follow_up_questions'' of
          Some asked \<Rightarrow> previous_questions @ asked
        | None \<Rightarrow> previous_questions)"

fun filtered_questions_loop :: "string list \<Rightarrow> string list \<Rightarrow> string list \<Rightarrow> string list" where
  "filtered_questions_loop [] previous_questions filtered_questions = filtered_questions"
| "filtered_questions_loop (question # new_questions) previous_questions filtered_questions =
     filtered_questions_loop new_questions previous_questions
       (if \<not> list_ex (\<lambda>q. lower q = lower question) previous_questions
        then filtered_questions @ [question] else filtered_questions)"

definition filter_duplicate_questions :: "string list \<Rightarrow> history_entry list \<Rightarrow> string list" where
  "filter_duplicate_questions new_questions conversation_history =
     filtered_questions_loop new_questions
       (previous_questions_loop conversation_history []) []"

text \<open>
  The agent state is a dictionary. The generation strategy is a parameter of the agent: it
  returns the questions or raises.
\<close>

type_synonym agent_state = "string \<rightharpoonup> pyobj"

definition process ::
  "(agent_state \<Rightarrow> pyobj \<Rightarrow> int \<Rightarrow> exn + string list) \<Rightarrow> int \<Rightarrow> agent_state
     \<Rightarrow> exn + agent_state" where
  "process generate_questions max_questions state =
     (case state ''primary_agent_response'' of
        None \<Rightarrow> Inr state
      | Some original_response \<Rightarrow>
          (case generate_questions state original_response max_questions of
             Inl e \<Rightarrow> Inl e
           | Inr qs \<Rightarrow> Inr (state(''follow_up_questions'' \<mapsto> PList (map PStr qs)))))"

section \<open>json.dumps of a list of strings\<close>

text \<open>
  The text of a list of questions as a JSON array is what \<open>json.dumps\<close> makes of it with its
  defaults: the items between brackets, separated by a comma and a space, each between
  double quotes, with the quote, the backslash and every character outside the printable
  ASCII range escaped.
\<close>

definition hex_digit :: "nat \<Rightarrow> char" where
  "hex_digit n = ''0123456789abcdef'' ! n"

definition escape_char :: "char \<Rightarrow> string" where
  \<open>escape_char c =
     (if c = CHR ''"'' then [CHR 0x5C, CHR ''"'']
      else if c = CHR 0x5C then [CHR 0x5C, CHR 0x5C]
      else if c = CHR 0x08 then [CHR 0x5C, CHR ''b'']
      else if c = CHR 0x0C then [CHR 0x5C, CHR ''f'']
      else if c = CHR 0x0A then [CHR 0x5C, CHR ''n'']
      else if c = CHR 0x0D then [CHR 0x5C, CHR ''r'']
      else if c = CHR 0x09 then [CHR 0x5C, CHR ''t'']
      else let n = (of_char c :: nat) in
        if 32 \<le> n \<and> n \<le> 126 then [c]
        else [CHR 0x5C, CHR ''u'', CHR ''0'', CHR ''0'', hex_digit (n div 16), hex_digit (n mod 16)])\<close>

definition encode_basestring_ascii :: "string \<Rightarrow> string" where
  "encode_basestring_ascii s = CHR 0x22 # concat (map escape_char s) @ [CHR 0x22]"

fun join_items :: "string list \<Rightarrow> string" where
  \<comment> \<open>\<open>', '.join(items)\<close>\<close>
  "join_items [] = []"
| "join_items [x] = x"
| "join_items (x # y # items) = x @ '', '' @ join_items (y # items)"

definition json_dumps :: "string list \<Rightarrow> string" where
  "json_dumps qs = ''['' @ join_items (map encode_basestring_ascii qs) @ '']''"

section \<open>Facts about the scanner\<close>

lemma scan_once_Nil: "scan_once depth [] = Inl JSONDecodeError"
  by (simp add: scan_once.simps)

lemma scan_once_quote:
  "scan_once depth (CHR 0x22 # t) =
     (case scanstring [] t of Inl e \<Rightarrow> Inl e | Inr (str, rest) \<Rightarrow> Inr (PStr str, rest))"
  by (simp add: scan_once.simps)

lemma scan_once_brace:
  "scan_once depth (CHR ''{'' # t) =
     (if depth = 0 then Inl RecursionError
      else case skip_ws t of
             [] \<Rightarrow> Inl JSONDecodeError
           | c # rest \<Rightarrow>
               if c = CHR ''}'' then Inr (PDict [], rest)
               else if c = CHR 0x22 then parse_object (depth - 1) [] rest
               else Inl JSONDecodeError)"
  by (simp add: scan_once.simps)

lemma scan_once_bracket:
  "scan_once depth (CHR ''['' # t) =
     (if depth = 0 then Inl RecursionError
      else case skip_ws t of
             [] \<Rightarrow> Inl JSONDecodeError
           | c # rest \<Rightarrow>
               if c = CHR '']'' then Inr (PList [], rest)
               else parse_array (depth - 1) [] (c # rest))"
  by (simp add: scan_once.simps)

lemma scan_once_other:
  assumes "c \<noteq> CHR 0x22" "c \<noteq> CHR ''{''" "c \<noteq> CHR ''[''"
  shows "scan_once depth (c # t) =
     (if startswith (c # t) ''null'' then Inr (PNone, drop 4 (c # t))
      else if startswith (c # t) ''true'' then Inr (PBool True, drop 4 (c # t))
      else if startswith (c # t) ''false'' then Inr (PBool False, drop 5 (c # t))
      else case match_number (c # t) of
             Some (m, rest) \<Rightarrow> Inr (PNum m, rest)
           | None \<Rightarrow>
               if startswith (c # t) ''NaN'' then Inr (PNum ''NaN'', drop 3 (c # t))
               else if startswith (c # t) ''Infinity'' then Inr (PNum ''Infinity'', drop 8 (c # t))
               else if startswith (c # t) ''-Infinity'' then Inr (PNum ''-Infinity'', drop 9 (c # t))
               else Inl JSONDecodeError)"
  using assms by (simp add: scan_once.simps)

lemma startswith_drop_shorter:
  "startswith s p \<Longrightarrow> p \<noteq> [] \<Longrightarrow> length (drop (length p) s) < length s"
  by (cases s; cases p) (auto simp: startswith_def)

lemma scan_once_other_shorter:
  assumes "c \<noteq> CHR 0x22" "c \<noteq> CHR ''{''" "c \<noteq> CHR ''[''"
    and "scan_once depth (c # t) = Inr (v, r)"
  shows "length r < length (c # t)"
proof -
  note sw = startswith_drop_shorter [of "c # t"]
  from sw [of "''null''"] sw [of "''true''"] sw [of "''false''"] sw [of "''NaN''"]
    sw [of "''Infinity''"] sw [of "''-Infinity''"] assms(4)
  show ?thesis
    unfolding scan_once_other [OF assms(1-3)]
    by (auto split: if_splits option.splits prod.splits dest!: match_number_shorter)
qed

lemma scan_once_shorter_aux:
  "(scan_once depth s = Inr (v, r) \<longrightarrow> length r < length s)
   \<and> (parse_array depth vals s = Inr (v, r) \<longrightarrow> length r < length s)
   \<and> (parse_object depth pairs s = Inr (v, r) \<longrightarrow> length r < length s)"
proof (induction s arbitrary: depth v r vals pairs rule: length_induct)
  case (1 s)
  have IHa: "length r' < length s'"
    if "parse_array d vs s' = Inr (v', r')" "length s' < length s" for d vs s' v' r'
    using "1.IH" that by blast
  have IHo: "length r' < length s'"
    if "parse_object d ps s' = Inr (v', r')" "length s' < length s" for d ps s' v' r'
    using "1.IH" that by blast
  have A: "length r' < length s" if a: "scan_once d s = Inr (v', r')" for d v' r'
  proof (cases s)
    case Nil
    with a show ?thesis by (simp add: scan_once_Nil)
  next
    case (Cons c t)
    consider "c = CHR 0x22" | "c = CHR ''{''" | "c = CHR ''[''"
      | "c \<noteq> CHR 0x22" "c \<noteq> CHR ''{''" "c \<noteq> CHR ''[''"
      by blast
    then show ?thesis
    proof cases
      case 1
      with a Cons show ?thesis
        by (auto simp: scan_once_quote split: sum.splits prod.splits dest!: scanstring_shorter)
    next
      case 2
      with a Cons show ?thesis
        by (auto simp: scan_once_brace split: if_splits list.splits
            dest!: skip_ws_Cons_shorter IHo)
    next
      case 3
      with a Cons show ?thesis
        using length_skip_ws [of t]
        by (auto simp: scan_once_bracket split: if_splits list.splits
            dest!: skip_ws_Cons_shorter IHa)
    next
      case 4
      with a Cons scan_once_other_shorter show ?thesis by blast
    qed
  qed
  have B: "length r' < length s" if b: "parse_array d vs s = Inr (v', r')" for d vs v' r'
  proof -
    from b obtain w rest where w: "scan_once d s = Inr (w, rest)"
      by (subst (asm) parse_array.simps) (auto split: sum.splits)
    have lt: "length rest < length s"
      using A [OF w] .
    from b w lt obtain c rest' where c: "skip_ws rest = c # rest'"
      by (subst (asm) parse_array.simps) (auto split: list.splits)
    have lt': "length rest' < length rest"
      using c by (rule skip_ws_Cons_shorter)
    from b w lt c consider "r' = rest'"
      | "parse_array d (vs @ [w]) (skip_ws rest') = Inr (v', r')"
      by (subst (asm) parse_array.simps) (auto split: if_splits)
    then show ?thesis
    proof cases
      case 1
      with lt lt' show ?thesis by simp
    next
      case 2
      have "length (skip_ws rest') < length s"
        using length_skip_ws [of rest'] lt lt' by simp
      from IHa [OF 2 this] this show ?thesis by simp
    qed
  qed
  have C: "length r' < length s" if o: "parse_object d ps s = Inr (v', r')" for d ps v' r'
  proof -
    from o obtain key rest where k: "scanstring [] s = Inr (key, rest)"
      by (subst (asm) parse_object.simps) (auto split: sum.splits)
    have l0: "length rest < length s"
      using k by (rule scanstring_shorter)
    from o k obtain c rest1 where c: "skip_ws rest = c # rest1"
      by (subst (asm) parse_object.simps) (auto split: list.splits)
    have l1: "length rest1 < length rest"
      using c by (rule skip_ws_Cons_shorter)
    from o k c obtain w rest2 where w: "scan_once d (skip_ws rest1) = Inr (w, rest2)"
      by (subst (asm) parse_object.simps) (auto split: if_splits sum.splits)
    from o k c w have l2: "length rest2 < length (skip_ws rest1)"
      by (subst (asm) parse_object.simps) (auto split: if_splits)
    from o k c w l2 obtain c' rest3 where c': "skip_ws rest2 = c' # rest3"
      by (subst (asm) parse_object.simps) (auto split: if_splits list.splits)
    have l3: "length rest3 < length rest2"
      using c' by (rule skip_ws_Cons_shorter)
    have l3s: "length rest3 < length s"
      using l0 l1 l2 l3 length_skip_ws [of rest1] by simp
    from o k c w l2 c' consider "r' = rest3"
      | c'' rest4 where "skip_ws rest3 = c'' # rest4"
          "parse_object d (ps @ [(key, w)]) rest4 = Inr (v', r')"
      by (subst (asm) parse_object.simps) (auto split: if_splits list.splits)
    then show ?thesis
    proof cases
      case 1
      with l3s show ?thesis by simp
    next
      case 2
      have "length rest4 < length s"
        using skip_ws_Cons_shorter [OF 2(1)] l3s by simp
      from IHo [OF 2(2) this] this show ?thesis by simp
    qed
  qed
  from A B C show ?case by blast
qed

lemma scan_once_shorter: "scan_once depth s = Inr (v, r) \<Longrightarrow> length r < length s"
  using scan_once_shorter_aux by blast

text \<open>The loops, without the test that never fails.\<close>

lemma parse_array_loop:
  "parse_array depth vals s =
     (case scan_once depth s of
        Inl e \<Rightarrow> Inl e
      | Inr (v, rest) \<Rightarrow>
          (case skip_ws rest of
             [] \<Rightarrow> Inl JSONDecodeError
           | c # rest' \<Rightarrow>
               if c = CHR '']'' then Inr (PList (vals @ [v]), rest')
               else if c = CHR '','' then parse_array depth (vals @ [v]) (skip_ws rest')
               else Inl JSONDecodeError))"
  by (subst parse_array.simps) (auto split: sum.splits dest: scan_once_shorter)

lemma parse_object_loop:
  "parse_object depth pairs s =
     (case scanstring [] s of
        Inl e \<Rightarrow> Inl e
      | Inr (key, rest) \<Rightarrow>
          (case skip_ws rest of
             [] \<Rightarrow> Inl JSONDecodeError
           | c # rest1 \<Rightarrow>
               if c = CHR '':'' then
                 (case scan_once depth (skip_ws rest1) of
                    Inl e \<Rightarrow> Inl e
                  | Inr (v, rest2) \<Rightarrow>
                      (case skip_ws rest2 of
                         [] \<Rightarrow> Inl JSONDecodeError
                       | c' # rest3 \<Rightarrow>
                           if c' = CHR ''}'' then Inr (PDict (pairs @ [(key, v)]), rest3)
                           else if c' = CHR '','' then
                             (case skip_ws rest3 of
                                [] \<Rightarrow> Inl JSONDecodeError
                              | c'' # rest4 \<Rightarrow>
                                  if c'' = CHR 0x22
                                  then parse_object depth (pairs @ [(key, v)]) rest4
                                  else Inl JSONDecodeError)
                           else Inl JSONDecodeError))
               else Inl JSONDecodeError))"
  by (subst parse_object.simps)
    (auto split: sum.splits list.splits dest: scan_once_shorter)

section \<open>The prompt never exceeds its budget\<close>

lemma length_slice_to: "0 \<le> n \<Longrightarrow> int (length (slice_to n s)) \<le> n"
  by (simp add: slice_to_def)

text \<open>
  C1. For every history, every query and every value of the three prompt constants, the
  prompt built by \<open>_build_followup_prompt\<close> has at most \<open>MAX_PROMPT_CHARS\<close> = 10000
  characters.
\<close>

theorem build_followup_prompt_within_budget:
  "int (length (build_followup_prompt arth portfolio_schema category_schema req))
     \<le> MAX_PROMPT_CHARS
   \<and> MAX_PROMPT_CHARS = 10000"
proof -
  have "0 \<le> MAX_PROMPT_CHARS"
    by (simp add: MAX_PROMPT_CHARS_def)
  then have "int (length (slice_to MAX_PROMPT_CHARS p)) \<le> MAX_PROMPT_CHARS" for p :: string
    by (rule length_slice_to)
  then show ?thesis
    by (simp add: build_followup_prompt_def Let_def MAX_PROMPT_CHARS_def)
qed

lemma length_instructions_text: "length (instructions_text q) = length q + 406"
  by (simp add: instructions_text_def)

lemma length_static_prompt_text:
  "length (static_prompt_text a p c) = length a + length p + length c + 211"
  by (simp add: static_prompt_text_def)

text \<open>
  C2. Let \<open>available\<close> be \<open>MAX_PROMPT_CHARS\<close> minus the length of the static section. When
  \<open>available \<le> 0\<close> the history is dropped whole: the truncation returns the empty string and
  the prompt is the static section cut at the budget. When the history is longer than a
  positive \<open>available\<close>, what the truncation returns, and what the built prompt holds after
  the static section, is the history without its first \<open>len(history) - available\<close>
  characters: its trailing \<open>available\<close> characters, never a leading part.
\<close>

theorem history_truncation_keeps_trailing_suffix:
  assumes "static_prompt = static_prompt_text arth portfolio_schema category_schema"
    and "available = MAX_PROMPT_CHARS - int (length static_prompt)"
  shows "(available \<le> 0 \<longrightarrow>
            truncate_history_to_fit_prompt static_prompt hist = ''''
          \<and> build_followup_prompt arth portfolio_schema category_schema
                \<lparr>history = hist, query = q\<rparr> = take 10000 static_prompt)
       \<and> (0 < available \<and> available < int (length hist) \<longrightarrow>
            truncate_history_to_fit_prompt static_prompt hist
              = drop (length hist - nat available) hist
          \<and> int (length (truncate_history_to_fit_prompt static_prompt hist)) = available
          \<and> build_followup_prompt arth portfolio_schema category_schema
                \<lparr>history = hist, query = q\<rparr>
              = static_prompt @ drop (length hist - nat available) hist)"
proof (intro conjI impI)
  assume a: "available \<le> 0"
  show t: "truncate_history_to_fit_prompt static_prompt hist = ''''"
    using a assms(2) by (simp add: truncate_history_to_fit_prompt_def)
  have "10000 \<le> length static_prompt"
    using a assms(2) by (simp add: MAX_PROMPT_CHARS_def)
  then show "build_followup_prompt arth portfolio_schema category_schema
      \<lparr>history = hist, query = q\<rparr> = take 10000 static_prompt"
    using t assms(1)
    by (simp add: build_followup_prompt_def Let_def MAX_PROMPT_CHARS_def slice_to_def
        length_instructions_text)
next
  assume b: "0 < available \<and> available < int (length hist)"
  have n: "nat (max 0 (int (length hist) + - available)) = length hist - nat available"
    using b by linarith
  show t: "truncate_history_to_fit_prompt static_prompt hist
      = drop (length hist - nat available) hist"
    using b assms(2) n
    by (simp add: truncate_history_to_fit_prompt_def Let_def slice_from_def)
  show l: "int (length (truncate_history_to_fit_prompt static_prompt hist)) = available"
    unfolding t using b by (simp add: length_drop) linarith
  have len: "length (static_prompt @ drop (length hist - nat available) hist) = 10000"
    using b assms(2) by (simp add: MAX_PROMPT_CHARS_def) linarith
  define prompt where
    "prompt = static_prompt @ drop (length hist - nat available) hist @ instructions_text q"
  have over: "int (length prompt) > 10000"
    using len by (simp add: prompt_def length_instructions_text)
  have cut: "take 10000 prompt = static_prompt @ drop (length hist - nat available) hist"
    using len by (simp add: prompt_def)
  have "build_followup_prompt arth portfolio_schema category_schema
      \<lparr>history = hist, query = q\<rparr>
      = (if int (length prompt) > 10000 then slice_to 10000 prompt else prompt)"
    unfolding build_followup_prompt_def Let_def MAX_PROMPT_CHARS_def prompt_def
      assms(1)[symmetric]
    by (simp only: AgentSystemRequest.simps t)
  then show "build_followup_prompt arth portfolio_schema category_schema
      \<lparr>history = hist, query = q\<rparr> = static_prompt @ drop (length hist - nat available) hist"
    using over cut by (simp add: slice_to_def)
qed

theorem history_truncation_witness:
  "truncate_history_to_fit_prompt (static_prompt_text (replicate 9784 CHR ''a'') [] [])
      ''0123456789'' = ''56789''
   \<and> truncate_history_to_fit_prompt (static_prompt_text (replicate 9789 CHR ''a'') [] [])
      ''0123456789'' = []"
  using history_truncation_keeps_trailing_suffix [OF refl refl,
      of "replicate 9784 CHR ''a''" "[]" "[]" "''0123456789''"]
    history_truncation_keeps_trailing_suffix [OF refl refl,
      of "replicate 9789 CHR ''a''" "[]" "[]" "''0123456789''"]
  by (simp add: length_static_prompt_text MAX_PROMPT_CHARS_def)

section \<open>The validator\<close>

lemma endswith_qmark: "endswith q ''?'' \<longleftrightarrow> q \<noteq> [] \<and> last q = CHR ''?''"
proof (cases q rule: rev_cases)
  case Nil
  then show ?thesis by (simp add: endswith_def)
next
  case (snoc ys y)
  then show ?thesis by (auto simp: endswith_def)
qed

text \<open>
  C5, as the code has it. The strict batch validator passes a batch if and only if the
  batch is not empty, every question of it has more than 10 characters and ends with a
  question mark, and the batch has at most 3 questions.
\<close>

theorem validate_follow_up_questions_iff:
  "validate_follow_up_questions qs \<longleftrightarrow>
     qs \<noteq> []
     \<and> (\<forall>q \<in> set qs. length q > 10 \<and> last q = CHR ''?'')
     \<and> length qs \<le> 3"
  by (cases qs) (auto simp: validate_follow_up_questions_def endswith_qmark list_all_iff)

theorem validate_follow_up_questions_witness:
  "validate_follow_up_questions [''0123456789?'', ''What is your goal?'', ''And your horizon?'']
   \<and> \<not> validate_follow_up_questions [''012345678?'', ''What is your goal?'']
   \<and> \<not> validate_follow_up_questions [''What is your goal'']
   \<and> \<not> validate_follow_up_questions
        [''What is your goal?'', ''What is your goal?'', ''What is your goal?'', ''What is your goal?'']"
  using validate_follow_up_questions_iff [of "[''0123456789?'', ''What is your goal?'', ''And your horizon?'']"]
    validate_follow_up_questions_iff [of "[''012345678?'', ''What is your goal?'']"]
    validate_follow_up_questions_iff [of "[''What is your goal'']"]
    validate_follow_up_questions_iff
      [of "[''What is your goal?'', ''What is your goal?'', ''What is your goal?'', ''What is your goal?'']"]
  by simp

text \<open>
  The claim as written has no condition on the batch being non-empty: the empty batch meets
  all it asks for, and the validator rejects it.
\<close>

theorem validate_empty_batch_rejected:
  "\<not> validate_follow_up_questions []
   \<and> list_all (\<lambda>q. length q > 10 \<and> endswith q ''?'') ([] :: string list)
   \<and> length ([] :: string list) \<le> 3"
  by (simp add: validate_follow_up_questions_def)

section \<open>Questions asked before\<close>

lemma previous_questions_loop_eq:
  "previous_questions_loop conversation_history acc
     = acc @ concat (map (\<lambda>entry. case entry ''follow_up_questions'' of
                                     Some asked \<Rightarrow> asked | None \<Rightarrow> []) conversation_history)"
  by (induction conversation_history arbitrary: acc) (auto split: option.splits)

lemma filtered_questions_loop_eq:
  "filtered_questions_loop new_questions previous acc
     = acc @ filter (\<lambda>c. lower c \<notin> lower ` set previous) new_questions"
  by (induction new_questions arbitrary: acc) (auto simp: list_ex_iff image_iff, metis+)

text \<open>
  C6, as the code has it. With \<open>previous\<close> the questions of all \<open>follow_up_questions\<close> fields
  of the history, a candidate is dropped if and only if its lower-cased form, as it stands
  and not trimmed, is the lower-cased form of a question of \<open>previous\<close>; the candidates that
  stay are in their original order.
\<close>

theorem filter_duplicate_questions_case_insensitive:
  assumes "previous = concat (map (\<lambda>entry. case entry ''follow_up_questions'' of
                                             Some asked \<Rightarrow> asked | None \<Rightarrow> []) conversation_history)"
  shows "filter_duplicate_questions new_questions conversation_history
           = filter (\<lambda>c. lower c \<notin> lower ` set previous) new_questions"
  unfolding filter_duplicate_questions_def previous_questions_loop_eq filtered_questions_loop_eq
    assms
  by simp

theorem filter_duplicate_questions_witness:
  "filter_duplicate_questions
     [''Previous question?'', ''New question?'', ''Another new question?'']
     [[''user_query'' \<mapsto> [''hello'']], [''follow_up_questions'' \<mapsto> [''PREVIOUS Question?'']]]
   = [''New question?'', ''Another new question?'']"
proof -
  have l: "lower ''Previous question?'' = ''previous question?''"
    "lower ''PREVIOUS Question?'' = ''previous question?''"
    "lower ''New question?'' = ''new question?''"
    "lower ''Another new question?'' = ''another new question?''"
    by code_simp+
  show ?thesis
    using filter_duplicate_questions_case_insensitive [OF refl,
        of "[''Previous question?'', ''New question?'', ''Another new question?'']"
           "[[''user_query'' \<mapsto> [''hello'']], [''follow_up_questions'' \<mapsto> [''PREVIOUS Question?'']]]"]
    by (simp add: l)
qed

text \<open>
  The claim as written trims the candidate before the comparison; the code does not: a
  candidate with a leading space stays, though trimmed and lower-cased it is a question
  asked before.
\<close>

theorem filter_duplicate_questions_does_not_trim:
  "filter_duplicate_questions ['' What is your goal?'']
     [[''follow_up_questions'' \<mapsto> [''what is your goal?'']]] = ['' What is your goal?'']
   \<and> lower (strip '' What is your goal?'') = lower ''what is your goal?''"
proof -
  have l: "lower '' What is your goal?'' = '' what is your goal?''"
    "lower ''what is your goal?'' = ''what is your goal?''"
    "lower (strip '' What is your goal?'') = ''what is your goal?''"
    by code_simp+
  show ?thesis
    by (simp add: l filter_duplicate_questions_def)
qed

text \<open>
  C10. When the agent state has no key \<open>primary_agent_response\<close>, \<open>process\<close> returns the state
  as it was, whatever the generation strategy is: the strategy plays no part in the result,
  and no \<open>follow_up_questions\<close> field is added.
\<close>

theorem process_without_primary_response:
  "state ''primary_agent_response'' = None
   \<Longrightarrow> process generate_questions max_questions state = Inr state"
  by (simp add: process_def)

theorem process_without_primary_response_witness:
  "process (\<lambda>state original_response max_questions. Inr [''Why?'']) 3
     [''user_query'' \<mapsto> PStr ''hi''] = Inr [''user_query'' \<mapsto> PStr ''hi'']
   \<and> process (\<lambda>state original_response max_questions. Inl (Raised ''timeout'')) 3
     [''user_query'' \<mapsto> PStr ''hi''] = Inr [''user_query'' \<mapsto> PStr ''hi'']"
  using process_without_primary_response
      [of "[''user_query'' \<mapsto> PStr ''hi'']" "\<lambda>state original_response max_questions. Inr [''Why?'']" 3]
    process_without_primary_response
      [of "[''user_query'' \<mapsto> PStr ''hi'']"
          "\<lambda>state original_response max_questions. Inl (Raised ''timeout'')" 3]
  by simp

section \<open>Round trip through a JSON array\<close>

lemma skip_ws_not_ws: "\<not> json_ws c \<Longrightarrow> skip_ws (c # s) = c # s"
  by (simp add: skip_ws_def)

lemma search_json_array_whole:
  "search_json_array (CHR ''['' # s @ '']'') = Some (CHR ''['' # s @ '']'')"
  by (simp add: search_json_array_def Let_def)

lemma hex_value_hex_digit: "k < 16 \<Longrightarrow> hex_value (hex_digit k) = Some k"
proof -
  have "\<forall>k<16. hex_value (hex_digit k) = Some k"
    by code_simp
  then show "k < 16 \<Longrightarrow> hex_value (hex_digit k) = Some k"
    by blast
qed

lemma hex_value_zero: "hex_value CHR ''0'' = Some 0"
  by code_simp

lemma decode_uXXXX_byte:
  assumes "n < 256"
  shows "decode_uXXXX CHR ''0'' CHR ''0'' (hex_digit (n div 16)) (hex_digit (n mod 16)) = Some n"
proof -
  have "n div 16 < 16"
    using assms by simp
  then show ?thesis
    by (simp add: decode_uXXXX_def hex_value_zero hex_value_hex_digit)
qed

lemma scanstring_plain:
  assumes "c \<noteq> CHR 0x22" "c \<noteq> CHR 0x5C" "32 \<le> (of_char c :: nat)"
  shows "scanstring chunks (c # t) = scanstring (chunks @ [c]) t"
  using assms by simp

lemma scanstring_backslash:
  assumes "esc \<noteq> CHR ''u''" "backslash esc = Some ch"
  shows "scanstring chunks (CHR 0x5C # esc # t) = scanstring (chunks @ [ch]) t"
  using assms by simp

lemma scanstring_unicode:
  assumes "decode_uXXXX h1 h2 h3 h4 = Some uni" "uni < 256"
  shows "scanstring chunks (CHR 0x5C # CHR ''u'' # h1 # h2 # h3 # h4 # t)
           = scanstring (chunks @ [char_of uni]) t"
  using assms by simp

lemma scanstring_escape_char:
  "scanstring chunks (escape_char c @ t) = scanstring (chunks @ [c]) t"
proof -
  let ?n = "of_char c :: nat"
  have lt: "?n < 256"
    by simp
  consider (quote) "c = CHR 0x22" | (bs) "c = CHR 0x5C" | (b) "c = CHR 0x08" | (f) "c = CHR 0x0C"
    | (n) "c = CHR 0x0A" | (r) "c = CHR 0x0D" | (t) "c = CHR 0x09"
    | (plain) "c \<noteq> CHR 0x22" "c \<noteq> CHR 0x5C" "c \<noteq> CHR 0x08" "c \<noteq> CHR 0x0C" "c \<noteq> CHR 0x0A"
        "c \<noteq> CHR 0x0D" "c \<noteq> CHR 0x09" "32 \<le> ?n \<and> ?n \<le> 126"
    | (uni) "c \<noteq> CHR 0x22" "c \<noteq> CHR 0x5C" "c \<noteq> CHR 0x08" "c \<noteq> CHR 0x0C" "c \<noteq> CHR 0x0A"
        "c \<noteq> CHR 0x0D" "c \<noteq> CHR 0x09" "\<not> (32 \<le> ?n \<and> ?n \<le> 126)"
    by blast
  then show ?thesis
  proof cases
    case quote
    then show ?thesis
      by (simp add: escape_char_def backslash_def)
  next
    case bs
    then show ?thesis
      by (simp add: escape_char_def backslash_def)
  next
    case b
    then show ?thesis
      by (simp add: escape_char_def backslash_def)
  next
    case f
    then show ?thesis
      by (simp add: escape_char_def backslash_def)
  next
    case n
    then show ?thesis
      by (simp add: escape_char_def backslash_def)
  next
    case r
    then show ?thesis
      by (simp add: escape_char_def backslash_def)
  next
    case t
    then show ?thesis
      by (simp add: escape_char_def backslash_def)
  next
    case plain
    then have "escape_char c = [c]"
      by (simp add: escape_char_def)
    then show ?thesis
      using plain scanstring_plain [of c chunks t] by simp
  next
    case uni
    then have "escape_char c
        = [CHR 0x5C, CHR ''u'', CHR ''0'', CHR ''0'', hex_digit (?n div 16), hex_digit (?n mod 16)]"
      by (simp add: escape_char_def Let_def)
    then show ?thesis
      using scanstring_unicode [OF decode_uXXXX_byte [OF lt] lt, of chunks t] by simp
  qed
qed

lemma scanstring_encoded:
  "scanstring chunks (concat (map escape_char s) @ CHR 0x22 # t) = Inr (chunks @ s, t)"
  by (induction s arbitrary: chunks) (simp_all add: scanstring_escape_char)

lemma scan_once_encoded:
  "scan_once depth (encode_basestring_ascii s @ t) = Inr (PStr s, t)"
  by (simp add: encode_basestring_ascii_def scan_once_quote scanstring_encoded)

lemma join_items_starts_with_quote:
  "\<exists>u. join_items (map encode_basestring_ascii (q # qs)) = CHR 0x22 # u"
  by (cases qs) (simp_all add: encode_basestring_ascii_def)

lemma parse_array_items:
  "parse_array depth acc (join_items (map encode_basestring_ascii (q # qs)) @ CHR '']'' # t)
     = Inr (PList (acc @ map PStr (q # qs)), t)"
proof (induction qs arbitrary: q acc)
  case Nil
  show ?case
    by (subst parse_array_loop)
      (simp add: scan_once_encoded skip_ws_not_ws json_ws_def)
next
  case (Cons q' qs)
  obtain u where u: "join_items (map encode_basestring_ascii (q' # qs)) = CHR 0x22 # u"
    using join_items_starts_with_quote by blast
  have ws: "skip_ws (CHR '' '' # join_items (map encode_basestring_ascii (q' # qs)) @ CHR '']'' # t)
      = join_items (map encode_basestring_ascii (q' # qs)) @ CHR '']'' # t"
    unfolding u by (simp add: skip_ws_def json_ws_def)
  have "parse_array depth acc
      (encode_basestring_ascii q
         @ (CHR '','' # CHR '' '' # join_items (map encode_basestring_ascii (q' # qs)) @ CHR '']'' # t))
      = parse_array depth (acc @ [PStr q])
          (join_items (map encode_basestring_ascii (q' # qs)) @ CHR '']'' # t)"
    using ws
    by (subst parse_array_loop)
      (simp add: scan_once_encoded skip_ws_not_ws json_ws_def)
  then show ?case
    using Cons.IH [of "acc @ [PStr q]" q'] by simp
qed

lemma json_loads_dumps:
  assumes "0 < depth"
  shows "json_loads depth (json_dumps qs) = Inr (PList (map PStr qs))"
proof (cases qs)
  case Nil
  then show ?thesis
    using assms
    by (simp add: json_loads_def json_dumps_def skip_ws_not_ws json_ws_def scan_once_bracket
        skip_ws_def)
next
  case (Cons q qs')
  obtain u where u: "join_items (map encode_basestring_ascii (q # qs')) = CHR 0x22 # u"
    using join_items_starts_with_quote by blast
  have "scan_once depth (CHR ''['' # join_items (map encode_basestring_ascii (q # qs')) @ '']'')
      = parse_array (depth - 1) [] (join_items (map encode_basestring_ascii (q # qs')) @ '']'')"
    using assms unfolding u by (simp add: scan_once_bracket skip_ws_not_ws json_ws_def)
  also have "\<dots> = Inr (PList (map PStr (q # qs')), [])"
    using parse_array_items [of "depth - 1" "[]" q qs' "[]"] by simp
  finally show ?thesis
    unfolding Cons by (simp add: json_loads_def json_dumps_def skip_ws_not_ws json_ws_def skip_ws_def)
qed


lemma nonblank_strings_PStr:
  "nonblank_strings (map PStr qs) = filter (\<lambda>q. strip q \<noteq> []) qs"
  by (induction qs) simp_all

lemma json_dumps_brackets: "\<exists>u. json_dumps qs = CHR ''['' # u @ '']''"
  by (simp add: json_dumps_def)

lemma strip_json_dumps: "strip (json_dumps qs) = json_dumps qs"
proof -
  obtain u where "json_dumps qs = CHR ''['' # u @ '']''"
    using json_dumps_brackets by blast
  then show ?thesis
    by (simp add: strip_def isspace_def)
qed

lemma lower_char_bracket: "lower_char CHR ''['' = CHR ''[''"
  by code_simp

lemma json_dumps_not_sentinel:
  "\<not> startswith (lower (json_dumps qs)) ''no follow-up needed''"
proof -
  obtain u where "json_dumps qs = CHR ''['' # u @ '']''"
    using json_dumps_brackets by blast
  then show ?thesis
    by (simp add: startswith_def lower_def lower_char_bracket)
qed


lemma parse_json_dumps:
  assumes "0 < depth"
  shows "parse depth (json_dumps qs)
     = \<lparr>questions = filter (\<lambda>q. strip q \<noteq> []) qs, no_follow_up_needed = False\<rparr>"
  by (simp add: parse_def Let_def strip_json_dumps json_dumps_not_sentinel
      json_loads_dumps [OF assms] nonblank_strings_PStr)




section \<open>The response parser of followUpAgent.py\<close>

text \<open>
  C4. When the response, trimmed and lower-cased, begins with \<open>no follow-up needed\<close>, the
  parser returns no question and \<open>no_follow_up_needed = True\<close>; the result is the same for
  every decoder budget and whatever follows the phrase, the decoder and the line fallback
  having no part in it. The agent then stores an empty list, \<open>follow_up_needed = False\<close> and
  the message \<open>No follow-up needed.\<close>
\<close>

theorem parse_sentinel:
  assumes "startswith (lower (strip text)) ''no follow-up needed''"
  shows "parse depth text = \<lparr>questions = [], no_follow_up_needed = True\<rparr>
     \<and> (chat (build_followup_prompt arth portfolio_schema category_schema (agent_request state))
           = Inr text
         \<longrightarrow> execute_agent arth portfolio_schema category_schema depth chat state
           = set_follow_up [] False ''No follow-up needed.'' state)"
  using assms by (simp add: parse_def execute_agent_def Let_def)

theorem parse_sentinel_witness:
  \<open>parse 1000 ''No follow-up needed.'' = \<lparr>questions = [], no_follow_up_needed = True\<rparr>
   \<and> parse 0 ''  NO FOLLOW-UP NEEDED: ["What?"]''
       = \<lparr>questions = [], no_follow_up_needed = True\<rparr>\<close>
proof -
  have a: "startswith (lower (strip ''No follow-up needed.'')) ''no follow-up needed''"
    by code_simp
  have b: \<open>startswith (lower (strip ''  NO FOLLOW-UP NEEDED: ["What?"]'')) ''no follow-up needed''\<close>
    by code_simp
  show ?thesis
    using parse_sentinel [OF a, of 1000] parse_sentinel [OF b, of 0] by simp
qed

text \<open>
  C7, as the code has it. Whenever the parser reports \<open>no_follow_up_needed\<close> its list of
  questions is empty, and whenever the agent stores \<open>follow_up_needed = False\<close> it stores the
  empty list. The number of questions has no bound in this agent: the JSON array of \<open>n\<close>
  questions gives \<open>n\<close> questions, whatever \<open>n\<close> is.
\<close>

theorem no_follow_up_needed_has_no_questions:
  "(no_follow_up_needed (parse depth text) \<longrightarrow> questions (parse depth text) = [])
   \<and> (agent_response (execute_agent arth portfolio_schema category_schema depth chat state)
          ''follow_up_needed'' = Some (PBool False)
        \<longrightarrow> agent_response (execute_agent arth portfolio_schema category_schema depth chat state)
          ''follow_up_questions'' = Some (PList []))
   \<and> length (questions (parse (Suc depth) (json_dumps (replicate n ''Is it so?'')))) = n"
proof (intro conjI)
  show "no_follow_up_needed (parse depth text) \<longrightarrow> questions (parse depth text) = []"
    by (simp add: parse_def Let_def split: sum.splits pyobj.splits option.splits)
  show "agent_response (execute_agent arth portfolio_schema category_schema depth chat state)
          ''follow_up_needed'' = Some (PBool False)
        \<longrightarrow> agent_response (execute_agent arth portfolio_schema category_schema depth chat state)
          ''follow_up_questions'' = Some (PList [])"
    by (simp add: execute_agent_def set_follow_up_def Let_def split: sum.splits)
  have "strip ''Is it so?'' \<noteq> []"
    by code_simp
  then show "length (questions (parse (Suc depth) (json_dumps (replicate n ''Is it so?'')))) = n"
    by (simp add: parse_json_dumps)
qed

theorem no_follow_up_needed_witness:
  "no_follow_up_needed (parse 1000 ''I have nothing to ask.'')
   \<and> questions (parse 1000 ''I have nothing to ask.'') = []"
proof -
  have "no_follow_up_needed (parse 1000 ''I have nothing to ask.'')"
    by code_simp
  then show ?thesis
    using no_follow_up_needed_has_no_questions [of 1000 "''I have nothing to ask.''"] by simp
qed

text \<open>
  The claim as written bounds the list by \<open>max_questions\<close> = 3; a response in the format the
  prompt asks for, with four questions, gives four.
\<close>

theorem parse_returns_four_questions:
  \<open>questions (parse 1000 ''{"questions": ["Q1?", "Q2?", "Q3?", "Q4?"]}'')
     = [''Q1?'', ''Q2?'', ''Q3?'', ''Q4?'']
   \<and> \<not> length (questions (parse 1000 ''{"questions": ["Q1?", "Q2?", "Q3?", "Q4?"]}'')) \<le> 3
   \<and> \<not> no_follow_up_needed (parse 1000 ''{"questions": ["Q1?", "Q2?", "Q3?", "Q4?"]}'')\<close>
  by code_simp

section \<open>The generation cascade\<close>

lemma template_result_valid:
  "validate_follow_up_questions
     [''Could you provide more context about your current situation?'']"
  by (simp add: validate_follow_up_questions_def endswith_def)

lemma template_result_is_kept:
  assumes "previous_messages context = None \<or> previous_messages context = Some []"
  shows "generate_follow_up_questions_checked context llm_outcome
     = \<lparr>follow_up_questions = [''Could you provide more context about your current situation?''],
        reasoning = ''Initial conversation requires more context'',
        confidence_score = 0.5\<rparr>"
  using assms template_result_valid
  by (auto simp: generate_follow_up_questions_checked_def generate_follow_up_questions_def)




section \<open>What leaves parse_follow_up_response\<close>

lemma scan_once_too_deep:
  "depth < n \<Longrightarrow> scan_once depth (replicate n CHR ''['' @ rest) = Inl RecursionError"
proof (induction depth arbitrary: n)
  case 0
  then obtain m where "n = Suc m"
    by (cases n) auto
  then show ?case
    by (simp add: scan_once_bracket)
next
  case (Suc depth)
  then obtain m where n: "n = Suc m" and m: "depth < m"
    by (cases n) auto
  then obtain k where k: "m = Suc k"
    by (cases m) auto
  have ws: "skip_ws (replicate m CHR ''['' @ rest) = CHR ''['' # replicate k CHR ''['' @ rest"
    unfolding k by (simp add: skip_ws_not_ws json_ws_def)
  have "scan_once depth (CHR ''['' # replicate k CHR ''['' @ rest) = Inl RecursionError"
    using Suc.IH [OF m] k by simp
  then have "parse_array depth [] (CHR ''['' # replicate k CHR ''['' @ rest) = Inl RecursionError"
    by (subst parse_array_loop) simp
  then show ?case
    unfolding n by (simp add: scan_once_bracket ws)
qed

lemma scanstring_error: "scanstring chunks s = Inl e \<Longrightarrow> e = JSONDecodeError"
proof (induction s arbitrary: chunks rule: length_induct)
  case (1 s)
  have IH: "e = JSONDecodeError"
    if "scanstring ch ys = Inl e" and "length ys < length s" for ys ch
    using "1.IH" that by blast
  show ?case
    using "1.prems"
    by (cases s) (auto split: if_splits list.splits option.splits dest!: IH)
qed

lemma scan_once_other_error:
  assumes "c \<noteq> CHR 0x22" "c \<noteq> CHR ''{''" "c \<noteq> CHR ''[''"
    and "scan_once depth (c # t) = Inl e"
  shows "e = JSONDecodeError"
  using assms(4) unfolding scan_once_other [OF assms(1-3)]
  by (auto split: if_splits option.splits prod.splits)

lemma scan_once_errors_aux:
  "(scan_once depth s = Inl e \<longrightarrow> e = JSONDecodeError \<or> e = RecursionError \<and> depth < length s)
   \<and> (parse_array depth vals s = Inl e \<longrightarrow>
        e = JSONDecodeError \<or> e = RecursionError \<and> depth < length s)
   \<and> (parse_object depth pairs s = Inl e \<longrightarrow>
        e = JSONDecodeError \<or> e = RecursionError \<and> depth < length s)"
proof (induction s arbitrary: depth e vals pairs rule: length_induct)
  case (1 s)
  have IHa: "e' = JSONDecodeError \<or> e' = RecursionError \<and> d < length s'"
    if "parse_array d vs s' = Inl e'" "length s' < length s" for d vs s' e'
    using "1.IH" that by blast
  have IHo: "e' = JSONDecodeError \<or> e' = RecursionError \<and> d < length s'"
    if "parse_object d ps s' = Inl e'" "length s' < length s" for d ps s' e'
    using "1.IH" that by blast
  have IHs: "e' = JSONDecodeError \<or> e' = RecursionError \<and> d < length s'"
    if "scan_once d s' = Inl e'" "length s' < length s" for d s' e'
    using "1.IH" that by blast
  have A: "e' = JSONDecodeError \<or> e' = RecursionError \<and> d < length s"
    if a: "scan_once d s = Inl e'" for d e'
  proof (cases s)
    case Nil
    with a show ?thesis by (simp add: scan_once_Nil)
  next
    case (Cons c t)
    consider "c = CHR 0x22" | "c = CHR ''{''" | "c = CHR ''[''"
      | "c \<noteq> CHR 0x22" "c \<noteq> CHR ''{''" "c \<noteq> CHR ''[''"
      by blast
    then show ?thesis
    proof cases
      case 1
      with a Cons show ?thesis
        by (auto simp: scan_once_quote split: sum.splits prod.splits dest!: scanstring_error)
    next
      case 2
      show ?thesis
      proof (cases "d = 0")
        case True
        with a Cons 2 show ?thesis by (simp add: scan_once_brace)
      next
        case False
        with a Cons 2 consider "e' = JSONDecodeError"
          | rest where "skip_ws t = CHR 0x22 # rest" "parse_object (d - 1) [] rest = Inl e'"
          by (auto simp: scan_once_brace split: list.splits if_splits)
        then show ?thesis
        proof cases
          case 1
          then show ?thesis by simp
        next
          case 2
          have l: "length rest < length t"
            using 2(1) by (rule skip_ws_Cons_shorter)
          with Cons have "length rest < length s" by simp
          from IHo [OF 2(2) this] l Cons False show ?thesis by auto
        qed
      qed
    next
      case 3
      show ?thesis
      proof (cases "d = 0")
        case True
        with a Cons 3 show ?thesis by (simp add: scan_once_bracket)
      next
        case False
        with a Cons 3 consider "e' = JSONDecodeError"
          | c' rest where "skip_ws t = c' # rest" "parse_array (d - 1) [] (c' # rest) = Inl e'"
          by (auto simp: scan_once_bracket split: list.splits if_splits)
        then show ?thesis
        proof cases
          case 1
          then show ?thesis by simp
        next
          case 2
          have l: "length (c' # rest) \<le> length t"
            using length_skip_ws [of t] 2(1) by simp
          with Cons have "length (c' # rest) < length s" by simp
          from IHa [OF 2(2) this] l Cons False show ?thesis by auto
        qed
      qed
    next
      case 4
      with a Cons scan_once_other_error show ?thesis by blast
    qed
  qed
  have B: "e' = JSONDecodeError \<or> e' = RecursionError \<and> d < length s"
    if b: "parse_array d vs s = Inl e'" for d vs e'
  proof -
    note b' = b [unfolded parse_array_loop [of d vs s]]
    show ?thesis
    proof (cases "scan_once d s")
      case (Inl x)
      with b' have "x = e'"
        by simp
      with Inl show ?thesis
        using A by blast
    next
      case (Inr p)
      obtain w rest where p: "p = (w, rest)"
        by (cases p)
      note v = Inr [unfolded p]
      show ?thesis
      proof (cases "skip_ws rest")
        case Nil
        with b' v show ?thesis
          by simp
      next
        case (Cons c rest')
        from b' v Cons have
          "e' = JSONDecodeError \<or> parse_array d (vs @ [w]) (skip_ws rest') = Inl e'"
          by (simp split: if_splits)
        then show ?thesis
        proof
          assume "e' = JSONDecodeError"
          then show ?thesis by simp
        next
          assume r: "parse_array d (vs @ [w]) (skip_ws rest') = Inl e'"
          have "length (skip_ws rest') < length s"
            using scan_once_shorter [OF v] skip_ws_Cons_shorter [OF Cons]
              length_skip_ws [of rest'] by simp
          from IHa [OF r this] this show ?thesis by auto
        qed
      qed
    qed
  qed
  have C: "e' = JSONDecodeError \<or> e' = RecursionError \<and> d < length s"
    if o: "parse_object d ps s = Inl e'" for d ps e'
  proof -
    note o' = o [unfolded parse_object_loop [of d ps s]]
    show ?thesis
    proof (cases "scanstring [] s")
      case (Inl x)
      with o' scanstring_error [OF Inl] show ?thesis
        by simp
    next
      case (Inr p)
      obtain key rest where p: "p = (key, rest)"
        by (cases p)
      note k = Inr [unfolded p]
      show ?thesis
      proof (cases "skip_ws rest")
        case Nil
        with o' k show ?thesis
          by simp
      next
        case c: (Cons c rest1)
        have l1: "length (skip_ws rest1) < length s"
          using scanstring_shorter [OF k] skip_ws_Cons_shorter [OF c]
            length_skip_ws [of rest1] by simp
        show ?thesis
        proof (cases "scan_once d (skip_ws rest1)")
          case (Inl x)
          with o' k c have "e' = JSONDecodeError \<or> x = e'"
            by (simp split: if_splits)
          then show ?thesis
          proof
            assume "e' = JSONDecodeError"
            then show ?thesis by simp
          next
            assume "x = e'"
            with Inl have "scan_once d (skip_ws rest1) = Inl e'"
              by simp
            from IHs [OF this l1] l1 show ?thesis by auto
          qed
        next
          case v: (Inr pv)
          obtain w rest2 where pv: "pv = (w, rest2)"
            by (cases pv)
          note v' = v [unfolded pv]
          show ?thesis
          proof (cases "skip_ws rest2")
            case Nil
            with o' k c v' show ?thesis
              by (simp split: if_splits)
          next
            case c': (Cons c' rest3)
            show ?thesis
            proof (cases "skip_ws rest3")
              case Nil
              with o' k c v' c' show ?thesis
                by (simp split: if_splits)
            next
              case c'': (Cons c'' rest4)
              from o' k c v' c' c'' have
                "e' = JSONDecodeError \<or> parse_object d (ps @ [(key, w)]) rest4 = Inl e'"
                by (simp split: if_splits)
              then show ?thesis
              proof
                assume "e' = JSONDecodeError"
                then show ?thesis by simp
              next
                assume r: "parse_object d (ps @ [(key, w)]) rest4 = Inl e'"
                have "length rest4 < length s"
                  using l1 scan_once_shorter [OF v'] skip_ws_Cons_shorter [OF c']
                    skip_ws_Cons_shorter [OF c''] by simp
                from IHo [OF r this] this show ?thesis by auto
              qed
            qed
          qed
        qed
      qed
    qed
  qed
  from A B C show ?case by blast
qed

lemma scan_once_errors:
  "scan_once depth s = Inl e \<Longrightarrow> e = JSONDecodeError \<or> e = RecursionError \<and> depth < length s"
  using scan_once_errors_aux by blast

lemma json_loads_errors:
  assumes "json_loads depth s = Inl e"
  shows "e = JSONDecodeError \<or> e = RecursionError \<and> depth < length s"
proof (cases "scan_once depth (skip_ws s)")
  case (Inl x)
  with assms have "x = e"
    by (simp add: json_loads_def)
  with scan_once_errors [OF Inl] length_skip_ws [of s] show ?thesis
    by auto
next
  case (Inr p)
  with assms show ?thesis
    by (cases p) (simp add: json_loads_def split: if_splits)
qed

lemma search_json_array_length: "search_json_array s = Some m \<Longrightarrow> length m \<le> length s"
proof -
  assume "search_json_array s = Some m"
  then have m: "m = rev (dropWhile (\<lambda>c. c \<noteq> CHR '']'') (rev (dropWhile (\<lambda>c. c \<noteq> CHR ''['') s)))"
    by (auto simp: search_json_array_def Let_def split: if_splits)
  have "length m \<le> length (dropWhile (\<lambda>c. c \<noteq> CHR ''['') s)"
    unfolding m using length_dropWhile_le [of _ "rev (dropWhile (\<lambda>c. c \<noteq> CHR ''['') s)"] by simp
  then show ?thesis
    using length_dropWhile_le [of "\<lambda>c. c \<noteq> CHR ''[''" s] by (rule order_trans)
qed

text \<open>
  C9 fails on \<open>parse_follow_up_response\<close>. For every recursion budget of the interpreter there
  is a text, one more opening bracket than the budget and a closing one, on which the
  pattern finds a span, \<open>json.loads\<close> raises \<open>RecursionError\<close>, and the exception, which is
  no \<open>JSONDecodeError\<close>, leaves the function.
\<close>

theorem parse_follow_up_response_raises:
  "parse_follow_up_response depth (replicate (Suc depth) CHR ''['' @ '']'') = Inl RecursionError"
proof -
  have "scan_once depth (replicate (Suc depth) CHR ''['' @ '']'') = Inl RecursionError"
    by (rule scan_once_too_deep) simp
  then have "json_loads depth (CHR ''['' # replicate depth CHR ''['' @ '']'') = Inl RecursionError"
    by (simp add: json_loads_def skip_ws_not_ws json_ws_def)
  then show ?thesis
    using search_json_array_whole [of "replicate depth CHR ''[''"]
    by (simp add: parse_follow_up_response_def)
qed

text \<open>
  Nothing else leaves it: an exception of \<open>parse_follow_up_response\<close> is a \<open>RecursionError\<close>
  on a text longer than the budget, and on a text within the budget the result is a list.
\<close>

lemma parse_follow_up_response_error:
  assumes "parse_follow_up_response depth llm_response = Inl e"
  shows "e = RecursionError \<and> depth < length llm_response"
proof -
  from assms obtain m where m: "search_json_array llm_response = Some m"
    and j: "json_loads depth m = Inl e" and n: "e \<noteq> JSONDecodeError"
    by (auto simp: parse_follow_up_response_def
        split: option.splits sum.splits exn.splits pyobj.splits)
  from json_loads_errors [OF j] n search_json_array_length [OF m] show ?thesis
    by auto
qed

lemma parse_follow_up_response_within_budget:
  "length llm_response \<le> depth \<Longrightarrow> \<exists>qs. parse_follow_up_response depth llm_response = Inr qs"
  using parse_follow_up_response_error [of depth llm_response]
  by (cases "parse_follow_up_response depth llm_response") auto

end
